theory Spec2Isabelle
  imports Complex_Main
begin

section \<open>Python values and errors\<close>

text \<open>
  The analyzer is a Python module (\<^verbatim>\<open>prime_property_analyzer.py\<close>). Python integers
  are unbounded, so they are \<^typ>\<open>int\<close> here; \<^verbatim>\<open>//\<close> and \<^verbatim>\<open>%\<close> round towards minus
  infinity, exactly as \<open>div\<close> and \<open>mod\<close> on \<^typ>\<open>int\<close> do. The three ways a statement
  of the modelled functions can raise are values of \<open>error\<close>, and a function that can
  raise returns \<open>error + 'a\<close> with \<open>Inl\<close> for the exception.

  The source compiles its numeric functions with Numba, where an integer has 64 bits.
  The model is of the Python semantics; the compiled code computes the same values as
  long as no intermediate result leaves the 64-bit range, which the source assumes of
  its bound.
\<close>

datatype error = ZeroDivisionError | IndexError | KeyError

text \<open>\<^verbatim>\<open>a % b\<close> on integers: raises for \<open>b = 0\<close>.\<close>

definition py_mod :: "int \<Rightarrow> int \<Rightarrow> error + int" where
  "py_mod a b = (if b = 0 then Inl ZeroDivisionError else Inr (a mod b))"


text \<open>\<^verbatim>\<open>xs[-1]\<close>: the last element, \<^verbatim>\<open>IndexError\<close> on an empty sequence.\<close>

definition py_last :: "'a list \<Rightarrow> error + 'a" where
  "py_last xs = (if xs = [] then Inl IndexError else Inr (last xs))"

section \<open>Primality Oracle\<close>

text \<open>
  \<^verbatim>\<open>
  def is_prime(n):
      if n < 2: return False
      if n == 2: return True
      if n % 2 == 0: return False
      i = 3
      while i * i <= n:
          if n % i == 0: return False
          i += 2
      return True
  \<close>
  The \<^verbatim>\<open>while\<close> loop is \<open>is_prime_loop\<close>, with the loop variable \<open>i\<close> as argument.
\<close>

function is_prime_loop :: "int \<Rightarrow> int \<Rightarrow> error + bool" where
  "is_prime_loop n i =
     (if i * i \<le> n then
        (case py_mod n i of
           Inl e \<Rightarrow> Inl e
         | Inr r \<Rightarrow> if r = 0 then Inr False else is_prime_loop n (i + 2))
      else Inr True)"
  by pat_completeness auto

termination
proof (relation "measure (\<lambda>(n, i). nat (n + 1 - i))")
  show "wf (measure (\<lambda>(n, i). nat (n + 1 - i)))" by simp
next
  fix n i :: int and r :: int
  assume sq: "i * i \<le> n"
  have "i \<le> i * i"
  proof (cases "1 \<le> i")
    case True
    then have "i * 1 \<le> i * i" by (intro mult_left_mono) auto
    then show ?thesis by simp
  next
    case False
    then have "i \<le> 0" by simp
    also have "0 \<le> i * i" by simp
    finally show ?thesis .
  qed
  with sq have "i \<le> n" by linarith
  then show "((n, i + 2), (n, i)) \<in> measure (\<lambda>(n, i). nat (n + 1 - i))" by simp
qed

declare is_prime_loop.simps [simp del]

definition is_prime :: "int \<Rightarrow> error + bool" where
  "is_prime n =
     (if n < 2 then Inr False
      else if n = 2 then Inr True
      else (case py_mod n 2 of
              Inl e \<Rightarrow> Inl e
            | Inr r \<Rightarrow> if r = 0 then Inr False else is_prime_loop n 3))"

section \<open>Prime Enumerator\<close>

text \<open>
  \<^verbatim>\<open>
  def generate_primes_array(max_n):
      primes = []
      for n in range(2, max_n + 1):
          if is_prime(n):
              primes.append(n)
      return np.array(primes, dtype=np.int64)
  \<close>
  The \<^verbatim>\<open>for\<close> loop runs over the candidates \<open>[2..max_n]\<close> with the list built so far
  as accumulator.
\<close>

fun generate_primes_loop :: "int list \<Rightarrow> int list \<Rightarrow> error + int list" where
  "generate_primes_loop [] primes = Inr primes"
| "generate_primes_loop (n # ns) primes =
     (case is_prime n of
        Inl e \<Rightarrow> Inl e
      | Inr b \<Rightarrow> generate_primes_loop ns (if b then primes @ [n] else primes))"

definition generate_primes_array :: "int \<Rightarrow> error + int list" where
  "generate_primes_array max_n = generate_primes_loop [2..max_n] []"

section \<open>Digit-Square Invariant\<close>

text \<open>
  \<^verbatim>\<open>
  def compute_delta(n):
      if n < 10: return -1
      x = n // 10
      y = n % 10
      return x * x + y * y - n
  \<close>
\<close>

definition compute_delta :: "int \<Rightarrow> int" where
  "compute_delta n =
     (if n < 10 then - 1
      else (let x = n div 10; y = n mod 10 in x * x + y * y - n))"

section \<open>Gap-Pair Scanner\<close>

text \<open>
  The local variables of \<^verbatim>\<open>_collect_base10_data\<close> are the fields of \<open>scan_state\<close>.
  The field \<open>delta_calls\<close> is not a variable of the source: it records, in order, the
  argument of every call of \<^verbatim>\<open>compute_delta\<close> that the scanner makes, so that
  statements about those calls can be made.
\<close>

record scan_state =
  total_pairs :: int
  successful_pairs :: int
  counterexamples :: "(int \<times> int) list"
  delta_calls :: "int list"

text \<open>How one pass through the loop body ends: fall through to the next element
  (also by \<^verbatim>\<open>continue\<close>), \<^verbatim>\<open>break\<close>, or an exception.\<close>

datatype flow = Continue | Break | Raise error

text \<open>
  \<^verbatim>\<open>
      for p1 in primes:
          if p1 < 11: continue
          p2 = p1 + gap
          if p2 > primes[-1]: break
          if p2 in prime_set:
              total_pairs += 1
              delta1 = compute_delta(p1)
              delta2 = compute_delta(p2)
              mod1 = delta1 % modulus
              mod2 = delta2 % modulus
              if mod1 == 0 or mod2 == 0:
                  successful_pairs += 1
              else:
                  if len(counterexamples) < 10:
                      counterexamples.append((p1, p2))
  \<close>
  \<open>prime_set = set(primes)\<close> is \<open>set primes\<close>.
\<close>

definition scan_body :: "int list \<Rightarrow> int \<Rightarrow> int \<Rightarrow> int \<Rightarrow> scan_state \<Rightarrow> flow \<times> scan_state" where
  "scan_body primes gap modulus p1 st =
     (if p1 < 11 then (Continue, st)
      else
        (let p2 = p1 + gap in
         case py_last primes of
           Inl e \<Rightarrow> (Raise e, st)
         | Inr mx \<Rightarrow>
             if p2 > mx then (Break, st)
             else if p2 \<in> set primes then
               (let st1 = st\<lparr>total_pairs := total_pairs st + 1\<rparr>;
                    delta1 = compute_delta p1;
                    delta2 = compute_delta p2;
                    st2 = st1\<lparr>delta_calls := delta_calls st1 @ [p1, p2]\<rparr>
                in case py_mod delta1 modulus of
                     Inl e \<Rightarrow> (Raise e, st2)
                   | Inr mod1 \<Rightarrow>
                       (case py_mod delta2 modulus of
                          Inl e \<Rightarrow> (Raise e, st2)
                        | Inr mod2 \<Rightarrow>
                            if mod1 = 0 \<or> mod2 = 0 then
                              (Continue, st2\<lparr>successful_pairs := successful_pairs st2 + 1\<rparr>)
                            else if int (length (counterexamples st2)) < 10 then
                              (Continue, st2\<lparr>counterexamples := counterexamples st2 @ [(p1, p2)]\<rparr>)
                            else (Continue, st2)))
             else (Continue, st)))"

fun scan_loop :: "int list \<Rightarrow> int \<Rightarrow> int \<Rightarrow> int list \<Rightarrow> scan_state \<Rightarrow> error option \<times> scan_state" where
  "scan_loop primes gap modulus [] st = (None, st)"
| "scan_loop primes gap modulus (p1 # rest) st =
     (case scan_body primes gap modulus p1 st of
        (Continue, st') \<Rightarrow> scan_loop primes gap modulus rest st'
      | (Break, st') \<Rightarrow> (None, st')
      | (Raise e, st') \<Rightarrow> (Some e, st'))"

definition scan_init :: scan_state where
  "scan_init = \<lparr>total_pairs = 0, successful_pairs = 0, counterexamples = [], delta_calls = []\<rparr>"

text \<open>The whole scan, from the initial state; the second component is the state in
  which the function was left, whether by \<^verbatim>\<open>return\<close> or by an exception.\<close>

definition scan_run :: "int list \<Rightarrow> int \<Rightarrow> int \<Rightarrow> error option \<times> scan_state" where
  "scan_run primes gap modulus = scan_loop primes gap modulus primes scan_init"

definition collect_base10_data :: "int list \<Rightarrow> int \<Rightarrow> int \<Rightarrow> error + (int \<times> int \<times> (int \<times> int) list)" where
  "collect_base10_data primes gap modulus =
     (case scan_run primes gap modulus of
        (Some e, st) \<Rightarrow> Inl e
      | (None, st) \<Rightarrow> Inr (total_pairs st, successful_pairs st, counterexamples st))"

section \<open>Mod-6 Structural Analyzer\<close>

text \<open>
  \<^verbatim>\<open>
      for p1 in range(11, max_prime - gap + 1):
          if is_prime(p1):
              p2 = p1 + gap
              if is_prime(p2):
                  x1, y1 = p1 // 10, p1 % 10
                  x2, y2 = p2 // 10, p2 % 10
                  delta1 = x1 * x1 + y1 * y1 - p1
                  delta2 = x2 * x2 + y2 * y2 - p2
                  has_property = (delta1 % 3 == 0) or (delta2 % 3 == 0)
                  mod6_results.append((p1 % 6, has_property))
                  digit_pattern_results.append((y1, y2, has_property, p1, p2, x1 % 3, x2 % 3))
      return mod6_results, digit_pattern_results
  \<close>
\<close>

type_synonym mod6_record = "int \<times> bool"
type_synonym digit_record = "int \<times> int \<times> bool \<times> int \<times> int \<times> int \<times> int"

text \<open>One pass through the body of the loop, on the two result lists.\<close>

definition collect_mod6_body ::
  "int \<Rightarrow> int \<Rightarrow> mod6_record list \<times> digit_record list \<Rightarrow>
   error + (mod6_record list \<times> digit_record list)" where
  "collect_mod6_body gap p1 acc =
     (case acc of (mod6_results, digit_pattern_results) \<Rightarrow>
      case is_prime p1 of
        Inl e \<Rightarrow> Inl e
      | Inr b1 \<Rightarrow>
          if b1 then
            (let p2 = p1 + gap in
             case is_prime p2 of
               Inl e \<Rightarrow> Inl e
             | Inr b2 \<Rightarrow>
                 if b2 then
                   (let x1 = p1 div 10; y1 = p1 mod 10;
                        x2 = p2 div 10; y2 = p2 mod 10;
                        delta1 = x1 * x1 + y1 * y1 - p1;
                        delta2 = x2 * x2 + y2 * y2 - p2;
                        has_property = (delta1 mod 3 = 0 \<or> delta2 mod 3 = 0)
                    in Inr (mod6_results @ [(p1 mod 6, has_property)],
                            digit_pattern_results @
                              [(y1, y2, has_property, p1, p2, x1 mod 3, x2 mod 3)]))
                 else Inr acc)
          else Inr acc)"

fun collect_mod6_loop ::
  "int \<Rightarrow> int list \<Rightarrow> mod6_record list \<times> digit_record list \<Rightarrow>
   error + (mod6_record list \<times> digit_record list)" where
  "collect_mod6_loop gap [] acc = Inr acc"
| "collect_mod6_loop gap (p1 # rest) acc =
     (case collect_mod6_body gap p1 acc of
        Inl e \<Rightarrow> Inl e
      | Inr acc' \<Rightarrow> collect_mod6_loop gap rest acc')"

definition collect_mod6_data ::
  "int \<Rightarrow> int \<Rightarrow> error + (mod6_record list \<times> digit_record list)" where
  "collect_mod6_data max_prime gap = collect_mod6_loop gap [11..max_prime - gap] ([], [])"

section \<open>Aggregation in the reporting functions\<close>


definition MOD6_GAPS :: "int list" where
  "MOD6_GAPS = [6, 12, 18, 24, 30]"




text \<open>
  Part (A) of \<^verbatim>\<open>run_mod6_analysis\<close>: the tally by residue class, in a dictionary with
  the two keys 1 and 5 only. Indexing it with another key raises \<^verbatim>\<open>KeyError\<close>.
  \<^verbatim>\<open>
      stats_mod6 = {1: [0, 0], 5: [0, 0]}
      for p_mod6, has_property in mod6_data:
          stats_mod6[p_mod6][0] += 1
          if has_property:
              stats_mod6[p_mod6][1] += 1
  \<close>
\<close>

definition stats_mod6_init :: "int \<rightharpoonup> int \<times> int" where
  "stats_mod6_init = [1 \<mapsto> (0, 0), 5 \<mapsto> (0, 0)]"

fun stats_mod6_loop :: "mod6_record list \<Rightarrow> (int \<rightharpoonup> int \<times> int) \<Rightarrow> error + (int \<rightharpoonup> int \<times> int)" where
  "stats_mod6_loop [] stats_mod6 = Inr stats_mod6"
| "stats_mod6_loop ((p_mod6, has_property) # rest) stats_mod6 =
     (case stats_mod6 p_mod6 of
        None \<Rightarrow> Inl KeyError
      | Some (total', success) \<Rightarrow>
          stats_mod6_loop rest
            (stats_mod6(p_mod6 \<mapsto> (total' + 1, if has_property then success + 1 else success))))"

section \<open>Reference notions\<close>

text \<open>The reference notion: an integer is prime when it is at least 2 and no integer
  strictly between 1 and itself divides it.\<close>

definition prime_number :: "int \<Rightarrow> bool" where
  "prime_number n \<longleftrightarrow> 2 \<le> n \<and> (\<forall>d \<in> {2..<n}. \<not> d dvd n)"

text \<open>The success predicate of a pair for a modulus, and the pairs of a sequence that
  qualify for a gap.\<close>

definition has_property :: "int \<Rightarrow> int \<Rightarrow> int \<Rightarrow> bool" where
  "has_property m p1 p2 \<longleftrightarrow> m dvd compute_delta p1 \<or> m dvd compute_delta p2"

definition qualifying :: "int list \<Rightarrow> int \<Rightarrow> int list" where
  "qualifying ps k = filter (\<lambda>p1. 11 \<le> p1 \<and> p1 + k \<in> set ps) ps"

text \<open>The effect on the state of one pair that is counted, for a modulus other than 0.\<close>

definition count_pair :: "int \<Rightarrow> int \<Rightarrow> int \<Rightarrow> scan_state \<Rightarrow> scan_state" where
  "count_pair gap m p1 st =
     st\<lparr>total_pairs := total_pairs st + 1,
        successful_pairs :=
          (if has_property m p1 (p1 + gap) then successful_pairs st + 1 else successful_pairs st),
        counterexamples :=
          (if \<not> has_property m p1 (p1 + gap) \<and> length (counterexamples st) < 10
           then counterexamples st @ [(p1, p1 + gap)] else counterexamples st),
        delta_calls := delta_calls st @ [p1, p1 + gap]\<rparr>"

text \<open>The failing pairs among the first elements \<open>Q\<close> of pairs, in order.\<close>

definition failing :: "int \<Rightarrow> int \<Rightarrow> int list \<Rightarrow> (int \<times> int) list" where
  "failing gap m Q = map (\<lambda>p1. (p1, p1 + gap)) (filter (\<lambda>p1. \<not> has_property m p1 (p1 + gap)) Q)"

text \<open>The effect of counting all pairs whose first elements are \<open>Q\<close>, in order.\<close>

definition count_all :: "int \<Rightarrow> int \<Rightarrow> int list \<Rightarrow> scan_state \<Rightarrow> scan_state" where
  "count_all gap m Q st =
     st\<lparr>total_pairs := total_pairs st + int (length Q),
        successful_pairs :=
          successful_pairs st + int (length (filter (\<lambda>p1. has_property m p1 (p1 + gap)) Q)),
        counterexamples :=
          counterexamples st @ take (10 - length (counterexamples st)) (failing gap m Q),
        delta_calls := delta_calls st @ concat (map (\<lambda>p1. [p1, p1 + gap]) Q)\<rparr>"

text \<open>The elements that the loop visits before it leaves by \<^verbatim>\<open>break\<close>, and the first
  elements of the pairs it counts among them.\<close>

definition scanned :: "int list \<Rightarrow> int \<Rightarrow> int list \<Rightarrow> int list" where
  "scanned primes gap rest = takeWhile (\<lambda>p1. p1 < 11 \<or> p1 + gap \<le> last primes) rest"

definition counted :: "int list \<Rightarrow> int \<Rightarrow> int list \<Rightarrow> int list" where
  "counted primes gap rest =
     filter (\<lambda>p1. 11 \<le> p1 \<and> p1 + gap \<in> set primes) (scanned primes gap rest)"

text \<open>The two records that the specification describes for the pair \<open>(p1, p1 + k)\<close>, with
  the success predicate of the scanner for modulus 3, and the first elements of the pairs
  of primes that the analyzer is to report for a bound and a gap, in ascending order.\<close>

definition mod6_record_of :: "int \<Rightarrow> int \<Rightarrow> mod6_record" where
  "mod6_record_of k p1 = (p1 mod 6, has_property 3 p1 (p1 + k))"

definition digit_record_of :: "int \<Rightarrow> int \<Rightarrow> digit_record" where
  "digit_record_of k p1 =
     (p1 mod 10, (p1 + k) mod 10, has_property 3 p1 (p1 + k), p1, p1 + k,
      (p1 div 10) mod 3, ((p1 + k) div 10) mod 3)"

definition prime_pairs :: "int \<Rightarrow> int \<Rightarrow> int list" where
  "prime_pairs N k = filter (\<lambda>p1. prime_number p1 \<and> prime_number (p1 + k)) [11..N - k]"

text \<open>The success predicate as the analyzer computes it, without a call of
  \<^verbatim>\<open>compute_delta\<close>, and the two records built from it.\<close>

definition inline_property :: "int \<Rightarrow> int \<Rightarrow> bool" where
  "inline_property p1 p2 \<longleftrightarrow>
     ((p1 div 10) * (p1 div 10) + (p1 mod 10) * (p1 mod 10) - p1) mod 3 = 0
     \<or> ((p2 div 10) * (p2 div 10) + (p2 mod 10) * (p2 mod 10) - p2) mod 3 = 0"

definition mod6_record_code :: "int \<Rightarrow> int \<Rightarrow> mod6_record" where
  "mod6_record_code k p1 = (p1 mod 6, inline_property p1 (p1 + k))"

definition digit_record_code :: "int \<Rightarrow> int \<Rightarrow> digit_record" where
  "digit_record_code k p1 =
     (p1 mod 10, (p1 + k) mod 10, inline_property p1 (p1 + k), p1, p1 + k,
      (p1 div 10) mod 3, ((p1 + k) div 10) mod 3)"

text \<open>What holds of the state of the scanner at every point of every execution.\<close>

definition scan_inv :: "int \<Rightarrow> scan_state \<Rightarrow> bool" where
  "scan_inv gap st \<longleftrightarrow>
     (\<forall>(p1, p2) \<in> set (counterexamples st). 11 \<le> p1 \<and> p2 = p1 + gap)
     \<and> (\<forall>n \<in> set (delta_calls st). 11 \<le> n \<or> 11 + gap \<le> n)
     \<and> int (length (delta_calls st)) = 2 * total_pairs st
     \<and> length (counterexamples st) \<le> 10"


section \<open>Correctness of the oracle\<close>

lemma small_factor:
  fixes n d :: int
  assumes "2 \<le> d" "d < n" "d dvd n"
  shows "\<exists>e. 2 \<le> e \<and> e * e \<le> n \<and> e dvd n"
proof -
  from assms obtain k where k: "n = d * k" by (auto simp: dvd_def)
  have kpos: "0 < k"
  proof (rule ccontr)
    assume "\<not> 0 < k"
    then have "k \<le> 0" by simp
    with assms(1) have "d * k \<le> 0" by (simp add: mult_nonneg_nonpos)
    with k assms show False by simp
  qed
  have k2: "2 \<le> k"
  proof (rule ccontr)
    assume "\<not> 2 \<le> k"
    with kpos have "k = 1" by simp
    with k assms show False by simp
  qed
  show ?thesis
  proof (cases "d \<le> k")
    case True
    with assms(1) have "d * d \<le> d * k" by (intro mult_left_mono) auto
    with k assms show ?thesis by auto
  next
    case False
    then have "k \<le> d" by simp
    with k2 have "k * k \<le> d * k" by (intro mult_right_mono) auto
    moreover have "k dvd n" using k by simp
    ultimately show ?thesis using k k2 by auto
  qed
qed

lemma odd_factor:
  fixes n e :: int
  assumes "odd n" "e dvd n"
  shows "odd e"
  using assms by (meson dvd_trans)

lemma is_prime_loop_correct:
  "3 \<le> i \<Longrightarrow> odd i \<Longrightarrow> odd n \<Longrightarrow> 2 \<le> n \<Longrightarrow>
   (\<forall>d. 2 \<le> d \<and> d < i \<longrightarrow> \<not> d dvd n) \<Longrightarrow>
   is_prime_loop n i = Inr (prime_number n)"
proof (induction n i rule: is_prime_loop.induct)
  case (1 n i)
  show ?case
  proof (cases "i * i \<le> n")
    case False
    have "prime_number n"
      unfolding prime_number_def
    proof (intro conjI ballI)
      show "2 \<le> n" by fact
    next
      fix d assume d: "d \<in> {2..<n}"
      show "\<not> d dvd n"
      proof
        assume "d dvd n"
        with d small_factor [of d n] obtain e where e: "2 \<le> e" "e * e \<le> n" "e dvd n"
          by auto
        have "e < i"
        proof (rule ccontr)
          assume "\<not> e < i"
          then have "i \<le> e" by simp
          with "1.prems"(1) have "i * i \<le> e * e" by (intro mult_mono) auto
          with e False show False by simp
        qed
        with e "1.prems"(5) show False by blast
      qed
    qed
    with False show ?thesis by (subst is_prime_loop.simps) simp
  next
    case True
    have ipos: "i \<noteq> 0" using "1.prems"(1) by simp
    show ?thesis
    proof (cases "n mod i = 0")
      case dv: True
      then have "i dvd n" by (simp add: dvd_eq_mod_eq_0)
      moreover have "i < n"
      proof -
        have "i * 3 \<le> i * i" using "1.prems"(1) by (intro mult_left_mono) auto
        with True "1.prems"(1) show ?thesis by linarith
      qed
      ultimately have "\<not> prime_number n"
        using "1.prems"(1) by (auto simp: prime_number_def)
      with True dv ipos show ?thesis
        by (subst is_prime_loop.simps) (simp add: py_mod_def)
    next
      case ndv: False
      then have nd: "\<not> i dvd n" by (simp add: dvd_eq_mod_eq_0)
      have inv: "\<forall>d. 2 \<le> d \<and> d < i + 2 \<longrightarrow> \<not> d dvd n"
      proof (intro allI impI)
        fix d assume d: "2 \<le> d \<and> d < i + 2"
        show "\<not> d dvd n"
        proof (cases "d < i")
          case True
          with d "1.prems"(5) show ?thesis by blast
        next
          case False
          with d have "d = i \<or> d = i + 1" by auto
          then show ?thesis
          proof
            assume "d = i" with nd show ?thesis by simp
          next
            assume "d = i + 1"
            with "1.prems"(2) have "even d" by simp
            with "1.prems"(3) show ?thesis using odd_factor by blast
          qed
        qed
      qed
      have "is_prime_loop n (i + 2) = Inr (prime_number n)"
      proof (rule "1.IH")
        show "i * i \<le> n" by fact
        show "py_mod n i = Inr (n mod i)" using ipos by (simp add: py_mod_def)
        show "n mod i \<noteq> 0" by fact
        show "3 \<le> i + 2" using "1.prems"(1) by simp
        show "odd (i + 2)" using "1.prems"(2) by simp
        show "odd n" by fact
        show "2 \<le> n" by fact
        show "\<forall>d. 2 \<le> d \<and> d < i + 2 \<longrightarrow> \<not> d dvd n" by (rule inv)
      qed
      with True ndv ipos show ?thesis
        by (subst is_prime_loop.simps) (simp add: py_mod_def)
    qed
  qed
qed

lemma is_prime_eq: "is_prime n = Inr (prime_number n)"
proof -
  consider "n < 2" | "n = 2" | "2 < n" "even n" | "2 < n" "odd n" by fastforce
  then show ?thesis
  proof cases
    case 1
    then show ?thesis by (simp add: is_prime_def prime_number_def)
  next
    case 2
    then show ?thesis by (simp add: is_prime_def prime_number_def)
  next
    case 3
    then have "\<not> prime_number n" by (auto simp: prime_number_def)
    with 3 show ?thesis by (simp add: is_prime_def py_mod_def)
  next
    case 4
    have "\<forall>d. 2 \<le> d \<and> d < 3 \<longrightarrow> \<not> d dvd n"
    proof (intro allI impI)
      fix d :: int assume "2 \<le> d \<and> d < 3"
      then have "d = 2" by simp
      with 4 show "\<not> d dvd n" by simp
    qed
    with 4 have "is_prime_loop n 3 = Inr (prime_number n)"
      by (intro is_prime_loop_correct) auto
    with 4 show ?thesis by (simp add: is_prime_def py_mod_def odd_iff_mod_2_eq_one)
  qed
qed



section \<open>The scanner, as a function of the sequence\<close>

lemma scan_body_eq:
  assumes "m \<noteq> 0" "primes \<noteq> []"
  shows "scan_body primes gap m p1 st =
     (if p1 < 11 then (Continue, st)
      else if p1 + gap > last primes then (Break, st)
      else if p1 + gap \<in> set primes then (Continue, count_pair gap m p1 st)
      else (Continue, st))"
  using assms
  by (simp add: scan_body_def py_last_def py_mod_def Let_def count_pair_def has_property_def
      dvd_eq_mod_eq_0)

lemma count_all_Nil: "count_all gap m [] st = st"
  by (simp add: count_all_def failing_def)

lemma count_all_Cons: "count_all gap m (p # Q) st = count_all gap m Q (count_pair gap m p st)"
  by (simp add: count_all_def count_pair_def failing_def take_Cons')

lemma counted_Nil: "counted primes gap [] = []"
  by (simp add: counted_def scanned_def)

lemma counted_Cons:
  "counted primes gap (p1 # rest) =
     (if p1 < 11 then counted primes gap rest
      else if p1 + gap > last primes then []
      else if p1 + gap \<in> set primes then p1 # counted primes gap rest
      else counted primes gap rest)"
  by (auto simp: counted_def scanned_def)

lemma scan_loop_eq:
  assumes "m \<noteq> 0" "primes \<noteq> []"
  shows "scan_loop primes gap m rest st = (None, count_all gap m (counted primes gap rest) st)"
proof (induction rest arbitrary: st)
  case Nil
  show ?case by (simp add: counted_Nil count_all_Nil)
next
  case (Cons p1 rest)
  show ?case
    by (simp add: scan_body_eq [OF assms] counted_Cons count_all_Nil count_all_Cons Cons.IH)
qed

lemma scan_run_eq:
  assumes "m \<noteq> 0"
  shows "scan_run primes gap m = (None, count_all gap m (counted primes gap primes) scan_init)"
proof (cases "primes = []")
  case True
  then show ?thesis by (simp add: scan_run_def counted_Nil count_all_Nil)
next
  case False
  with assms show ?thesis by (simp add: scan_run_def scan_loop_eq)
qed

lemma sorted_le_last: "sorted xs \<Longrightarrow> x \<in> set xs \<Longrightarrow> x \<le> last (xs :: int list)"
  by (induction xs) (auto split: if_splits)

lemma filter_takeWhile_sorted:
  assumes "sorted (rest :: int list)"
    and "\<And>x y. x \<in> set rest \<Longrightarrow> y \<in> set rest \<Longrightarrow> x \<le> y \<Longrightarrow> \<not> P x \<Longrightarrow> \<not> Q y"
  shows "filter Q (takeWhile P rest) = filter Q rest"
  using assms
proof (induction rest)
  case Nil
  show ?case by simp
next
  case (Cons a rest)
  show ?case
  proof (cases "P a")
    case True
    have "filter Q (takeWhile P rest) = filter Q rest"
      using Cons.prems by (intro Cons.IH) auto
    with True show ?thesis by simp
  next
    case False
    have "\<And>y. y \<in> set (a # rest) \<Longrightarrow> \<not> Q y"
      using Cons.prems False by (intro Cons.prems(2)[of a]) auto
    then have "filter Q (a # rest) = []" by (simp add: filter_empty_conv del: filter.simps)
    with False show ?thesis by simp
  qed
qed

lemma counted_sorted:
  assumes "sorted primes"
  shows "counted primes gap primes = qualifying primes gap"
  unfolding counted_def scanned_def qualifying_def
proof (rule filter_takeWhile_sorted [OF assms])
  fix x y
  assume "x \<in> set primes" "y \<in> set primes" "x \<le> y" "\<not> (x < 11 \<or> x + gap \<le> last primes)"
  then have "last primes < y + gap" by simp
  with sorted_le_last [OF assms, of "y + gap"] show "\<not> (11 \<le> y \<and> y + gap \<in> set primes)"
    by auto
qed



section \<open>Invariants of the scanner\<close>

lemma scan_inv_init: "scan_inv gap scan_init"
  by (simp add: scan_inv_def scan_init_def)

lemma scan_body_inv:
  assumes "scan_inv gap st"
  shows "scan_inv gap (snd (scan_body primes gap m p1 st))"
  using assms
  by (auto simp: scan_body_def scan_inv_def py_last_def py_mod_def Let_def)

lemma scan_loop_inv:
  "scan_inv gap st \<Longrightarrow> scan_inv gap (snd (scan_loop primes gap m rest st))"
proof (induction rest arbitrary: st)
  case Nil
  then show ?case by simp
next
  case (Cons p1 rest)
  obtain fl st' where b: "scan_body primes gap m p1 st = (fl, st')" by (cases "scan_body primes gap m p1 st")
  from scan_body_inv [OF Cons.prems, of primes m p1] b have inv: "scan_inv gap st'" by simp
  show ?case
  proof (cases fl)
    case Continue
    with b Cons.IH [OF inv] show ?thesis by simp
  next
    case Break
    with b inv show ?thesis by simp
  next
    case (Raise e)
    with b inv show ?thesis by simp
  qed
qed

lemma scan_run_inv: "scan_inv gap (snd (scan_run primes gap m))"
  unfolding scan_run_def by (rule scan_loop_inv [OF scan_inv_init])




section \<open>The enumerator\<close>

lemma generate_primes_loop_eq:
  "generate_primes_loop ns acc = Inr (acc @ filter prime_number ns)"
  by (induction ns arbitrary: acc) (simp_all add: is_prime_eq)

lemma generate_primes_array_eq:
  "generate_primes_array N = Inr (filter prime_number [2..N])"
  by (simp add: generate_primes_array_def generate_primes_loop_eq)

lemma prime_number_ge2: "prime_number p \<Longrightarrow> 2 \<le> p"
  by (simp add: prime_number_def)

lemma prime_mod6:
  assumes "prime_number p" "5 \<le> p"
  shows "p mod 6 = 1 \<or> p mod 6 = 5"
proof -
  have "2 \<in> {2..<p}" "3 \<in> {2..<p}" using assms(2) by auto
  with assms(1) have n2: "\<not> 2 dvd p" and n3: "\<not> 3 dvd p"
    unfolding prime_number_def by blast+
  then show ?thesis by presburger
qed
section \<open>The analyzer, as a function of bound and gap\<close>

lemma compute_delta_ge10:
  "10 \<le> n \<Longrightarrow> compute_delta n = (n div 10) * (n div 10) + (n mod 10) * (n mod 10) - n"
  by (simp add: compute_delta_def Let_def)

lemma has_property_3:
  assumes "10 \<le> p1" "10 \<le> p2"
  shows "has_property 3 p1 p2 \<longleftrightarrow>
     ((p1 div 10) * (p1 div 10) + (p1 mod 10) * (p1 mod 10) - p1) mod 3 = 0
     \<or> ((p2 div 10) * (p2 div 10) + (p2 mod 10) * (p2 mod 10) - p2) mod 3 = 0"
  unfolding has_property_def compute_delta_ge10 [OF assms(1)] compute_delta_ge10 [OF assms(2)]
  by (simp only: dvd_eq_mod_eq_0)

lemma collect_mod6_body_code:
  "collect_mod6_body gap p1 (a, b) =
     Inr (if prime_number p1 \<and> prime_number (p1 + gap)
          then (a @ [mod6_record_code gap p1], b @ [digit_record_code gap p1]) else (a, b))"
  unfolding collect_mod6_body_def mod6_record_code_def digit_record_code_def
    inline_property_def is_prime_eq Let_def
  by simp

lemma collect_mod6_loop_code:
  "collect_mod6_loop gap ps (a, b) =
     Inr (a @ map (mod6_record_code gap) (filter (\<lambda>p1. prime_number p1 \<and> prime_number (p1 + gap)) ps),
          b @ map (digit_record_code gap) (filter (\<lambda>p1. prime_number p1 \<and> prime_number (p1 + gap)) ps))"
proof (induction ps arbitrary: a b)
  case Nil
  show ?case by simp
next
  case (Cons p ps)
  show ?case by (simp add: collect_mod6_body_code Cons.IH)
qed

lemma collect_mod6_data_code:
  "collect_mod6_data N k =
     Inr (map (mod6_record_code k) (prime_pairs N k), map (digit_record_code k) (prime_pairs N k))"
  using collect_mod6_loop_code [of k "[11..N - k]" "[]" "[]"]
  by (simp add: collect_mod6_data_def prime_pairs_def)

lemma inline_property_eq:
  assumes "10 \<le> p1" "10 \<le> p2"
  shows "inline_property p1 p2 = has_property 3 p1 p2"
  unfolding inline_property_def has_property_3 [OF assms] ..

lemma prime_pairs_ge: "p \<in> set (prime_pairs N k) \<Longrightarrow> 11 \<le> p"
  by (simp add: prime_pairs_def)

lemma records_code_eq:
  assumes "0 \<le> k"
  shows "map (mod6_record_code k) (prime_pairs N k) = map (mod6_record_of k) (prime_pairs N k)"
    and "map (digit_record_code k) (prime_pairs N k) = map (digit_record_of k) (prime_pairs N k)"
proof -
  have "\<And>p. p \<in> set (prime_pairs N k) \<Longrightarrow> inline_property p (p + k) = has_property 3 p (p + k)"
    using assms prime_pairs_ge by (intro inline_property_eq) fastforce+
  then show "map (mod6_record_code k) (prime_pairs N k) = map (mod6_record_of k) (prime_pairs N k)"
    and "map (digit_record_code k) (prime_pairs N k) = map (digit_record_of k) (prime_pairs N k)"
    by (simp_all add: mod6_record_code_def mod6_record_of_def digit_record_code_def
        digit_record_of_def)
qed

lemma collect_mod6_data_eq:
  assumes "0 \<le> k"
  shows "collect_mod6_data N k =
     Inr (map (mod6_record_of k) (prime_pairs N k), map (digit_record_of k) (prime_pairs N k))"
  by (simp add: collect_mod6_data_code records_code_eq [OF assms])

section \<open>The pairs of the scanner and of the analyzer\<close>

lemma filter_upto_range:
  assumes "l \<le> a" "b \<le> u"
  shows "filter (\<lambda>x. a \<le> x \<and> x \<le> b) [l..u] = [a..b]"
proof (rule sorted_distinct_set_unique)
  show "sorted (filter (\<lambda>x. a \<le> x \<and> x \<le> b) [l..u])" by (rule sorted_wrt_filter) simp
  show "distinct (filter (\<lambda>x. a \<le> x \<and> x \<le> b) [l..u])" by simp
  show "sorted [a..b]" by simp
  show "distinct [a..b]" by simp
  show "set (filter (\<lambda>x. a \<le> x \<and> x \<le> b) [l..u]) = set [a..b]"
    using assms by auto
qed

lemma qualifying_enumerated:
  assumes "0 \<le> k"
  shows "qualifying (filter prime_number [2..N]) k = prime_pairs N k"
proof -
  have mem: "\<And>q. q \<in> set (filter prime_number [2..N]) \<longleftrightarrow> prime_number q \<and> q \<le> N"
    using prime_number_ge2 by auto
  have "qualifying (filter prime_number [2..N]) k =
        filter (\<lambda>p1. 11 \<le> p1 \<and> prime_number (p1 + k) \<and> p1 + k \<le> N) (filter prime_number [2..N])"
    unfolding qualifying_def by (simp only: mem)
  also have "\<dots> = filter (\<lambda>p1. prime_number p1 \<and> prime_number (p1 + k))
                     (filter (\<lambda>x. 11 \<le> x \<and> x \<le> N - k) [2..N])"
    unfolding filter_filter by (rule filter_cong) auto
  also have "filter (\<lambda>x. 11 \<le> x \<and> x \<le> N - k) [2..N] = [11..N - k]"
    using assms by (intro filter_upto_range) auto
  finally show ?thesis by (simp add: prime_pairs_def)
qed

section \<open>The table of rates\<close>



section \<open>The tally by residue class\<close>

lemma stats_upd_1: "[(1::int) \<mapsto> x, 5 \<mapsto> y](1 \<mapsto> z) = [1 \<mapsto> z, 5 \<mapsto> (y :: int \<times> int)]"
  by (rule ext) simp

lemma stats_upd_5: "[(1::int) \<mapsto> x, 5 \<mapsto> y](5 \<mapsto> z) = [1 \<mapsto> x, 5 \<mapsto> (z :: int \<times> int)]"
  by simp

lemma stats_step_1:
  "stats_mod6_loop ((1, h) # a) [1 \<mapsto> (t1, s1), 5 \<mapsto> (t5, s5)]
   = stats_mod6_loop a [1 \<mapsto> (t1 + 1, if h then s1 + 1 else s1), 5 \<mapsto> (t5, s5)]"
proof -
  have l: "[(1::int) \<mapsto> (t1, s1), 5 \<mapsto> (t5, s5)] 1 = Some (t1, s1)" by simp
  show ?thesis
    by (simp only: stats_mod6_loop.simps l option.case prod.case stats_upd_1)
qed

lemma stats_step_5:
  "stats_mod6_loop ((5, h) # a) [1 \<mapsto> (t1, s1), 5 \<mapsto> (t5, s5)]
   = stats_mod6_loop a [1 \<mapsto> (t1, s1), 5 \<mapsto> (t5 + 1, if h then s5 + 1 else s5)]"
proof -
  have l: "[(1::int) \<mapsto> (t1, s1), 5 \<mapsto> (t5, s5)] 5 = Some (t5, s5)" by simp
  show ?thesis
    by (simp only: stats_mod6_loop.simps l option.case prod.case stats_upd_5)
qed

lemma stats_mod6_loop_ok:
  assumes "\<forall>(r, h) \<in> set a. r = 1 \<or> r = 5"
  shows "\<exists>t1' s1' t5' s5'.
     stats_mod6_loop a [1 \<mapsto> (t1, s1), 5 \<mapsto> (t5, s5)] = Inr [1 \<mapsto> (t1', s1'), 5 \<mapsto> (t5', s5')]
     \<and> t1' + t5' = t1 + t5 + int (length a)
     \<and> s1' + s5' = s1 + s5 + int (length (filter snd a))"
  using assms
proof (induction a arbitrary: t1 s1 t5 s5)
  case Nil
  show ?case
    by (rule exI [of _ t1], rule exI [of _ s1], rule exI [of _ t5], rule exI [of _ s5]) simp
next
  case (Cons rh a)
  obtain r h where rh: "rh = (r, h)" by (cases rh)
  from Cons.prems rh have r: "r = 1 \<or> r = 5" and a: "\<forall>(r, h) \<in> set a. r = 1 \<or> r = 5" by auto
  from r show ?case
  proof
    assume r1: "r = 1"
    from Cons.IH [OF a, of "t1 + 1" "if h then s1 + 1 else s1" t5 s5]
    obtain t1' s1' t5' s5' where
      "stats_mod6_loop a [1 \<mapsto> (t1 + 1, if h then s1 + 1 else s1), 5 \<mapsto> (t5, s5)]
         = Inr [1 \<mapsto> (t1', s1'), 5 \<mapsto> (t5', s5')]"
      "t1' + t5' = t1 + 1 + t5 + int (length a)"
      "s1' + s5' = (if h then s1 + 1 else s1) + s5 + int (length (filter snd a))"
      by blast
    then have "stats_mod6_loop (rh # a) [1 \<mapsto> (t1, s1), 5 \<mapsto> (t5, s5)]
         = Inr [1 \<mapsto> (t1', s1'), 5 \<mapsto> (t5', s5')]
       \<and> t1' + t5' = t1 + t5 + int (length (rh # a))
       \<and> s1' + s5' = s1 + s5 + int (length (filter snd (rh # a)))"
      unfolding rh r1 stats_step_1 by simp
    then show ?thesis by blast
  next
    assume r5: "r = 5"
    from Cons.IH [OF a, of t1 s1 "t5 + 1" "if h then s5 + 1 else s5"]
    obtain t1' s1' t5' s5' where
      "stats_mod6_loop a [1 \<mapsto> (t1, s1), 5 \<mapsto> (t5 + 1, if h then s5 + 1 else s5)]
         = Inr [1 \<mapsto> (t1', s1'), 5 \<mapsto> (t5', s5')]"
      "t1' + t5' = t1 + (t5 + 1) + int (length a)"
      "s1' + s5' = s1 + (if h then s5 + 1 else s5) + int (length (filter snd a))"
      by blast
    then have "stats_mod6_loop (rh # a) [1 \<mapsto> (t1, s1), 5 \<mapsto> (t5, s5)]
         = Inr [1 \<mapsto> (t1', s1'), 5 \<mapsto> (t5', s5')]
       \<and> t1' + t5' = t1 + t5 + int (length (rh # a))
       \<and> s1' + s5' = s1 + s5 + int (length (filter snd (rh # a)))"
      unfolding rh r5 stats_step_5 by simp
    then show ?thesis by blast
  qed
qed

section \<open>The claims about the enumerator and the invariant\<close>





section \<open>The claims about the scanner and the analyzer\<close>

lemma enumerated_sorted: "sorted (filter prime_number [2..N])"
  by (rule sorted_wrt_filter) simp





text \<open>
  Claim C6. For every bound \<open>N\<close> and every gap \<open>k \<ge> 0\<close> (so every gap of the mod-6
  subset), run the scanner with modulus 3 on the Enumerator's sequence for \<open>N\<close>, and the
  analyzer on \<open>(N, k)\<close>. Both return normally, and the pairs the scanner counts are the
  pairs of the analyzer's records, in the same order and with the same \<open>has_property\<close>:
  the arguments of the scanner's \<open>compute_delta\<close> calls are \<open>p1, p2\<close> of the records in
  turn, \<open>total_pairs\<close> is the number of records, \<open>successful_pairs\<close> the number of
  records with \<open>has_property\<close> true, and the counterexamples are the first ten records
  with \<open>has_property\<close> false.
\<close>

theorem scanners_agree:
  assumes "0 \<le> k"
  shows "\<exists>ps a b st. generate_primes_array N = Inr ps \<and> collect_mod6_data N k = Inr (a, b)
     \<and> scan_run ps k 3 = (None, st)
     \<and> collect_base10_data ps k 3 = Inr (total_pairs st, successful_pairs st, counterexamples st)
     \<and> delta_calls st = concat (map (\<lambda>(y1, y2, h, p1, p2, x1, x2). [p1, p2]) b)
     \<and> map (\<lambda>(y1, y2, h, p1, p2, x1, x2). (p1, p2, h)) b
         = map (\<lambda>p1. (p1, p1 + k, has_property 3 p1 (p1 + k))) (qualifying ps k)
     \<and> total_pairs st = int (length a)
     \<and> successful_pairs st = int (length (filter snd a))
     \<and> counterexamples st
         = take 10 (map (\<lambda>(y1, y2, h, p1, p2, x1, x2). (p1, p2))
                      (filter (\<lambda>(y1, y2, h, p1, p2, x1, x2). \<not> h) b))"
proof -
  let ?ps = "filter prime_number [2..N]"
  let ?P = "prime_pairs N k"
  have s: "sorted ?ps" by (rule enumerated_sorted)
  have q: "qualifying ?ps k = ?P" by (rule qualifying_enumerated [OF assms])
  have c: "counted ?ps k ?ps = ?P" using counted_sorted [OF s, of k] q by simp
  have run: "scan_run ?ps k 3 = (None, count_all k 3 ?P scan_init)"
    using scan_run_eq [of 3 ?ps k] c by simp
  have f1: "filter snd (map (mod6_record_of k) ?P)
           = map (mod6_record_of k) (filter (\<lambda>p1. has_property 3 p1 (p1 + k)) ?P)"
    by (simp add: filter_map comp_def mod6_record_of_def)
  have f2: "map (\<lambda>(y1, y2, h, p1, p2, x1, x2). (p1, p2))
             (filter (\<lambda>(y1, y2, h, p1, p2, x1, x2). \<not> h) (map (digit_record_of k) ?P))
           = failing k 3 ?P"
    by (simp add: filter_map comp_def digit_record_of_def failing_def)
  have f3: "concat (map (\<lambda>(y1, y2, h, p1, p2, x1, x2). [p1, p2]) (map (digit_record_of k) ?P))
           = concat (map (\<lambda>p1. [p1, p1 + k]) ?P)"
    by (simp add: comp_def digit_record_of_def)
  have f4: "map (\<lambda>(y1, y2, h, p1, p2, x1, x2). (p1, p2, h)) (map (digit_record_of k) ?P)
           = map (\<lambda>p1. (p1, p1 + k, has_property 3 p1 (p1 + k))) ?P"
    by (simp add: comp_def digit_record_of_def)
  show ?thesis
    apply (rule exI [of _ ?ps])
    apply (rule exI [of _ "map (mod6_record_of k) ?P"])
    apply (rule exI [of _ "map (digit_record_of k) ?P"])
    apply (rule exI [of _ "count_all k 3 ?P scan_init"])
    apply (simp only: f1 f2 f3 f4 q)
    apply (simp add: generate_primes_array_eq collect_mod6_data_eq [OF assms] run
        collect_base10_data_def count_all_def scan_init_def)
    done
qed

theorem scanners_agree_witness:
  "(0::int) \<le> 6
   \<and> (\<exists>ps st. generate_primes_array 100 = Inr ps \<and> scan_run ps 6 3 = (None, st)
         \<and> collect_base10_data ps 6 3 = Inr (13, 10, [(23, 29), (53, 59), (83, 89)])
         \<and> delta_calls st = [11, 17, 13, 19, 17, 23, 23, 29, 31, 37, 37, 43, 41, 47, 47, 53,
                              53, 59, 61, 67, 67, 73, 73, 79, 83, 89])"
proof -
  have m: "collect_mod6_data 100 6 =
     Inr ([(5, True), (1, True), (5, True), (5, False), (1, True), (1, True),
           (5, True), (5, True), (5, False), (1, True), (1, True), (1, True), (5, False)],
          [(1, 7, True, 11, 17, 1, 1), (3, 9, True, 13, 19, 1, 1),
           (7, 3, True, 17, 23, 1, 2), (3, 9, False, 23, 29, 2, 2),
           (1, 7, True, 31, 37, 0, 0), (7, 3, True, 37, 43, 0, 1),
           (1, 7, True, 41, 47, 1, 1), (7, 3, True, 47, 53, 1, 2),
           (3, 9, False, 53, 59, 2, 2), (1, 7, True, 61, 67, 0, 0),
           (7, 3, True, 67, 73, 0, 1), (3, 9, True, 73, 79, 1, 1),
           (3, 9, False, 83, 89, 2, 2)])"
    by code_simp
  from scanners_agree [of 6 100] obtain ps a b st where
    g: "generate_primes_array 100 = Inr ps" and ab: "collect_mod6_data 100 6 = Inr (a, b)"
    and r: "scan_run ps 6 3 = (None, st)"
    and c: "collect_base10_data ps 6 3 = Inr (total_pairs st, successful_pairs st, counterexamples st)"
    and d: "delta_calls st = concat (map (\<lambda>(y1, y2, h, p1, p2, x1, x2). [p1, p2]) b)"
    and t: "total_pairs st = int (length a)"
    and s: "successful_pairs st = int (length (filter snd a))"
    and x: "counterexamples st
         = take 10 (map (\<lambda>(y1, y2, h, p1, p2, x1, x2). (p1, p2))
                      (filter (\<lambda>(y1, y2, h, p1, p2, x1, x2). \<not> h) b))"
    by auto
  from ab m have a: "a = [(5, True), (1, True), (5, True), (5, False), (1, True), (1, True),
           (5, True), (5, True), (5, False), (1, True), (1, True), (1, True), (5, False)]"
    and b: "b = [(1, 7, True, 11, 17, 1, 1), (3, 9, True, 13, 19, 1, 1),
           (7, 3, True, 17, 23, 1, 2), (3, 9, False, 23, 29, 2, 2),
           (1, 7, True, 31, 37, 0, 0), (7, 3, True, 37, 43, 0, 1),
           (1, 7, True, 41, 47, 1, 1), (7, 3, True, 47, 53, 1, 2),
           (3, 9, False, 53, 59, 2, 2), (1, 7, True, 61, 67, 0, 0),
           (7, 3, True, 67, 73, 0, 1), (3, 9, True, 73, 79, 1, 1),
           (3, 9, False, 83, 89, 2, 2)]"
    by simp_all
  have "total_pairs st = 13" unfolding t a by simp
  moreover have "successful_pairs st = 10" unfolding s a by simp
  moreover have "counterexamples st = [(23, 29), (53, 59), (83, 89)]" unfolding x b by simp
  moreover have "delta_calls st = [11, 17, 13, 19, 17, 23, 23, 29, 31, 37, 37, 43, 41, 47, 47, 53,
                              53, 59, 61, 67, 67, 73, 73, 79, 83, 89]"
    unfolding d b by simp
  ultimately show ?thesis using g r c by auto
qed




text \<open>
  Claim C8. In whatever state the scanner is left (for every sequence, gap and
  modulus), every counterexample pair has \<open>p1 \<ge> 11\<close> and \<open>p2 = p1 + k\<close>, so that for a
  positive gap both are at least 10. The analyzer returns normally, and each of its
  records has \<open>p1 \<ge> 11\<close> and \<open>p2 = p1 + k\<close> likewise, and a residue \<open>p1 mod 6\<close> that is 1
  or 5. The tally by residue of \<^verbatim>\<open>run_mod6_analysis\<close>, whose dictionary has the keys 1 and
  5 only, therefore raises no \<^verbatim>\<open>KeyError\<close> and accounts for every record.
\<close>

theorem pair_records_invariant:
  "(\<forall>(p1, p2) \<in> set (counterexamples (snd (scan_run primes k m))).
       11 \<le> p1 \<and> p2 = p1 + k \<and> (0 < k \<longrightarrow> 10 \<le> p1 \<and> 10 \<le> p2))
   \<and> (\<exists>a b. collect_mod6_data N k = Inr (a, b)
        \<and> (\<forall>(y1, y2, h, p1, p2, x1, x2) \<in> set b.
              11 \<le> p1 \<and> p2 = p1 + k \<and> (0 < k \<longrightarrow> 10 \<le> p1 \<and> 10 \<le> p2))
        \<and> (\<forall>(r, h) \<in> set a. r = 1 \<or> r = 5)
        \<and> (\<exists>t1 s1 t5 s5. stats_mod6_loop a stats_mod6_init = Inr [1 \<mapsto> (t1, s1), 5 \<mapsto> (t5, s5)]
              \<and> t1 + t5 = int (length a) \<and> s1 + s5 = int (length (filter snd a))))"
proof (intro conjI)
  from scan_run_inv [of k primes m]
  show "\<forall>(p1, p2) \<in> set (counterexamples (snd (scan_run primes k m))).
       11 \<le> p1 \<and> p2 = p1 + k \<and> (0 < k \<longrightarrow> 10 \<le> p1 \<and> 10 \<le> p2)"
    by (auto simp: scan_inv_def)
next
  let ?a = "map (mod6_record_code k) (prime_pairs N k)"
  let ?b = "map (digit_record_code k) (prime_pairs N k)"
  have b: "\<forall>(y1, y2, h, p1, p2, x1, x2) \<in> set ?b.
              11 \<le> p1 \<and> p2 = p1 + k \<and> (0 < k \<longrightarrow> 10 \<le> p1 \<and> 10 \<le> p2)"
    by (auto simp: digit_record_code_def prime_pairs_def)
  have a: "\<forall>(r, h) \<in> set ?a. r = 1 \<or> r = 5"
  proof -
    have "\<And>p. p \<in> set (prime_pairs N k) \<Longrightarrow> p mod 6 = 1 \<or> p mod 6 = 5"
      by (rule prime_mod6) (simp_all add: prime_pairs_def)
    then show ?thesis by (auto simp: mod6_record_code_def)
  qed
  from stats_mod6_loop_ok [OF a, of 0 0 0 0]
  have "\<exists>t1 s1 t5 s5. stats_mod6_loop ?a stats_mod6_init = Inr [1 \<mapsto> (t1, s1), 5 \<mapsto> (t5, s5)]
              \<and> t1 + t5 = int (length ?a) \<and> s1 + s5 = int (length (filter snd ?a))"
    by (simp add: stats_mod6_init_def)
  with a b show "\<exists>a b. collect_mod6_data N k = Inr (a, b)
        \<and> (\<forall>(y1, y2, h, p1, p2, x1, x2) \<in> set b.
              11 \<le> p1 \<and> p2 = p1 + k \<and> (0 < k \<longrightarrow> 10 \<le> p1 \<and> 10 \<le> p2))
        \<and> (\<forall>(r, h) \<in> set a. r = 1 \<or> r = 5)
        \<and> (\<exists>t1 s1 t5 s5. stats_mod6_loop a stats_mod6_init = Inr [1 \<mapsto> (t1, s1), 5 \<mapsto> (t5, s5)]
              \<and> t1 + t5 = int (length a) \<and> s1 + s5 = int (length (filter snd a)))"
    unfolding collect_mod6_data_code by blast
qed

theorem pair_records_invariant_witness:
  "counterexamples (snd (scan_run [2, 3, 5, 7, 11, 13, 17, 19, 23, 29] 6 3)) = [(23, 29)]
   \<and> (11::int) \<le> 23 \<and> (29::int) = 23 + 6 \<and> (10::int) \<le> 29
   \<and> collect_mod6_data 30 6 =
       Inr ([(5, True), (1, True), (5, True), (5, False)],
            [(1, 7, True, 11, 17, 1, 1), (3, 9, True, 13, 19, 1, 1),
             (7, 3, True, 17, 23, 1, 2), (3, 9, False, 23, 29, 2, 2)])
   \<and> (\<exists>t1 s1 t5 s5.
         stats_mod6_loop [(5, True), (1, True), (5, True), (5, False)] stats_mod6_init
           = Inr [1 \<mapsto> (t1, s1), 5 \<mapsto> (t5, s5)]
         \<and> t1 + t5 = 4 \<and> s1 + s5 = 3)"
proof -
  have c: "counterexamples (snd (scan_run [2, 3, 5, 7, 11, 13, 17, 19, 23, 29] 6 3)) = [(23, 29)]"
    by code_simp
  have m: "collect_mod6_data 30 6 =
       Inr ([(5, True), (1, True), (5, True), (5, False)],
            [(1, 7, True, 11, 17, 1, 1), (3, 9, True, 13, 19, 1, 1),
             (7, 3, True, 17, 23, 1, 2), (3, 9, False, 23, 29, 2, 2)])"
    by code_simp
  from pair_records_invariant [of "[2, 3, 5, 7, 11, 13, 17, 19, 23, 29]" 6 3 30]
  show ?thesis unfolding c m by (simp del: stats_mod6_loop.simps)
qed



text \<open>
  Claim C10. In every execution of the scanner with a positive gap (every sequence,
  every modulus, whether it returns or raises), each argument that was passed to
  \<open>compute_delta\<close> is at least 11, so that the call took the branch of the formula and
  not the one of the sentinel; and there are exactly two such calls for each pair
  counted.
\<close>

theorem compute_delta_calls_defined:
  assumes "0 < gap"
  shows "(\<forall>n \<in> set (delta_calls (snd (scan_run primes gap modulus))).
            11 \<le> n \<and> compute_delta n = (n div 10) * (n div 10) + (n mod 10) * (n mod 10) - n)
         \<and> int (length (delta_calls (snd (scan_run primes gap modulus))))
             = 2 * total_pairs (snd (scan_run primes gap modulus))"
proof -
  from scan_run_inv [of gap primes modulus] assms
  have "\<forall>n \<in> set (delta_calls (snd (scan_run primes gap modulus))). 11 \<le> n"
    and "int (length (delta_calls (snd (scan_run primes gap modulus))))
             = 2 * total_pairs (snd (scan_run primes gap modulus))"
    by (auto simp: scan_inv_def)
  moreover have "11 \<le> n \<Longrightarrow>
      compute_delta n = (n div 10) * (n div 10) + (n mod 10) * (n mod 10) - n" for n
    by (rule compute_delta_ge10) simp
  ultimately show ?thesis by blast
qed

theorem compute_delta_calls_defined_witness:
  "(0::int) < 2
   \<and> delta_calls (snd (scan_run [2, 3, 5, 7, 11, 13, 17, 19, 23, 29] 2 3)) = [11, 13, 17, 19]
   \<and> total_pairs (snd (scan_run [2, 3, 5, 7, 11, 13, 17, 19, 23, 29] 2 3)) = 2
   \<and> compute_delta 11 = - 9 \<and> compute_delta 13 = - 3
   \<and> compute_delta 17 = 33 \<and> compute_delta 19 = 63"
proof -
  have d: "delta_calls (snd (scan_run [2, 3, 5, 7, 11, 13, 17, 19, 23, 29] 2 3)) = [11, 13, 17, 19]"
    by code_simp
  from compute_delta_calls_defined [of 2 "[2, 3, 5, 7, 11, 13, 17, 19, 23, 29]" 3]
  show ?thesis unfolding d by simp
qed

end
